theory Spec2Isabelle
  imports Complex_Main "HOL-Library.Word"
begin

unbundle bit_operations_syntax

section \<open>Data model\<close>

text \<open>
  Go's \<^verbatim>\<open>int\<close> (on the 64-bit platforms), \<^verbatim>\<open>int64\<close> and \<^verbatim>\<open>time.Duration\<close> are 64-bit
  two's complement integers: \<open>64 word\<close>, read with \<open>sint\<close>, compared with \<open>\<le>s\<close> and
  \<open><s\<close>; \<open>+\<close> and \<open>-\<close> wrap around as Go's do.
\<close>

type_synonym int64 = "64 word"

type_synonym byte = "8 word"

text \<open>The run-time panics the package can raise.\<close>

datatype panic =
    InvalidArgumentToIntn
  | IntegerDivideByZero
  | MakesliceLenOutOfRange
  | IndexOutOfRange

section \<open>getRandSeed\<close>

text \<open>
  \<^verbatim>\<open>binary.LittleEndian.Uint64(b)\<close> of the standard library:
  \<^verbatim>\<open>uint64(b[0]) | uint64(b[1])<<8 | ... | uint64(b[7])<<56\<close>.
\<close>

definition LittleEndian_Uint64 :: "byte list \<Rightarrow> 64 word" where
  "LittleEndian_Uint64 b =
     ucast (b ! 0) OR push_bit 8 (ucast (b ! 1)) OR push_bit 16 (ucast (b ! 2))
       OR push_bit 24 (ucast (b ! 3)) OR push_bit 32 (ucast (b ! 4))
       OR push_bit 40 (ucast (b ! 5)) OR push_bit 48 (ucast (b ! 6))
       OR push_bit 56 (ucast (b ! 7))"

text \<open>
  \<^verbatim>\<open>getRandSeed\<close>. Its two inputs from the outside are the outcome of
  \<^verbatim>\<open>cRand.Read(b[:])\<close> (the contents of the 8-byte array \<open>b\<close> after the call and the
  error, \<open>None\<close> for \<^verbatim>\<open>nil\<close>) and the value of \<^verbatim>\<open>time.Now().UnixNano()\<close>.
  \<^verbatim>\<open>1<<63 - 1\<close> is the constant mask; \<^verbatim>\<open>int64(...)\<close> keeps the 64 bits.
\<close>

definition getRandSeed :: "byte list \<times> string option \<Rightarrow> int64 \<Rightarrow> int64" where
  "getRandSeed rd now =
     (case rd of
        (b, None) \<Rightarrow> LittleEndian_Uint64 b AND (push_bit 63 1 - 1)
      | (b, Some err) \<Rightarrow> now)"

text \<open>
  The value of eight bytes read as a little-endian unsigned number, written
  arithmetically: the yardstick for \<open>LittleEndian_Uint64\<close>.
\<close>

definition le_value :: "byte list \<Rightarrow> nat" where
  "le_value bs =
     unat (bs ! 0) + 256 * unat (bs ! 1) + 256 ^ 2 * unat (bs ! 2) + 256 ^ 3 * unat (bs ! 3)
       + 256 ^ 4 * unat (bs ! 4) + 256 ^ 5 * unat (bs ! 5) + 256 ^ 6 * unat (bs ! 6)
       + 256 ^ 7 * unat (bs ! 7)"

section \<open>Intn and IntnBetween\<close>

text \<open>
  \<^verbatim>\<open>globalRand.Intn\<close> is the standard library's \<^verbatim>\<open>(*math/rand.Rand).Intn\<close>, which is
  not part of the package. It is modelled by its documented contract: it panics if
  \<open>n \<le> 0\<close>, and otherwise returns a value of \<open>[0, n)\<close> fixed by the generator's state.
  The state's contribution is the parameter \<open>raw\<close>, reduced modulo \<open>n\<close>: every value of
  \<open>[0, n)\<close> is the result for some \<open>raw\<close>, and no other value is.
\<close>

definition mRand_Intn :: "int \<Rightarrow> int64 \<Rightarrow> panic + int64" where
  "mRand_Intn raw n =
     (if n \<le>s 0 then Inl InvalidArgumentToIntn
      else Inr (word_of_int (raw mod sint n)))"

text \<open>\<^verbatim>\<open>func Intn(n int) int { return globalRand.Intn(n) }\<close>\<close>

definition Intn :: "int \<Rightarrow> int64 \<Rightarrow> panic + int64" where
  "Intn raw n = mRand_Intn raw n"

text \<open>
  \<^verbatim>\<open>func IntnBetween(min, max int) int { return globalRand.Intn(max-min) + min }\<close>
  The subtraction and the addition are Go's wrapping machine operations; a panic of the
  inner call propagates.
\<close>

definition IntnBetween :: "int \<Rightarrow> int64 \<Rightarrow> int64 \<Rightarrow> panic + int64" where
  "IntnBetween raw min_v max_v =
     (case mRand_Intn raw (max_v - min_v) of
        Inl e \<Rightarrow> Inl e
      | Inr r \<Rightarrow> Inr (r + min_v))"

section \<open>Jitter\<close>

text \<open>
  \<^verbatim>\<open>Jitter\<close> computes in \<^verbatim>\<open>float64\<close>. The floating-point type and the operations the
  function uses are a parameter of the model: the literals (\<open>f_lit\<close>, the
  \<^verbatim>\<open>float64\<close> nearest to a decimal constant), \<open>*\<close>, \<open>-\<close>, \<open>>\<close>, the conversion
  \<^verbatim>\<open>float64(duration)\<close> and the conversion \<^verbatim>\<open>time.Duration(x)\<close>. What is proved of
  \<open>Jitter\<close> holds for every such arithmetic, IEEE 754 included.
\<close>

record 'f float64_ops =
  f_lit :: "rat \<Rightarrow> 'f"
  f_mul :: "'f \<Rightarrow> 'f \<Rightarrow> 'f"
  f_sub :: "'f \<Rightarrow> 'f \<Rightarrow> 'f"
  f_gt :: "'f \<Rightarrow> 'f \<Rightarrow> bool"
  f_of_duration :: "int64 \<Rightarrow> 'f"
  f_to_duration :: "'f \<Rightarrow> int64"

text \<open>\<^verbatim>\<open>const defaultJitterFactor = 0.2\<close>\<close>

definition defaultJitterFactor :: "'f float64_ops \<Rightarrow> 'f" where
  "defaultJitterFactor F = f_lit F (2 / 10)"

text \<open>
  The body of the loop, for the draw \<open>u\<close> that \<^verbatim>\<open>Float64()\<close> returned:
  \<^verbatim>\<open>randRange := 2*Float64() - 1\<close>,
  \<^verbatim>\<open>jitter := time.Duration(randRange * factor * float64(duration))\<close>,
  \<^verbatim>\<open>newDuration = duration + jitter\<close> (a wrapping addition).
\<close>

definition Jitter_candidate :: "'f float64_ops \<Rightarrow> 'f \<Rightarrow> int64 \<Rightarrow> 'f \<Rightarrow> int64" where
  "Jitter_candidate F factor duration u =
     (let randRange = f_sub F (f_mul F (f_lit F 2) u) (f_lit F 1);
          jitter = f_to_duration F (f_mul F (f_mul F randRange factor) (f_of_duration F duration))
      in duration + jitter)"

text \<open>
  \<^verbatim>\<open>for newDuration <= 0 { ... }\<close>; \<^verbatim>\<open>return newDuration\<close>. The generator is the
  sequence \<open>src\<close> of the values its \<^verbatim>\<open>Float64()\<close> returns from now on, \<open>k\<close> counts
  the draws taken. The loop has no bound, so the result is an option: \<open>None\<close> is a run
  that never returns.
\<close>

partial_function (option) Jitter_loop ::
  "'f float64_ops \<Rightarrow> (nat \<Rightarrow> 'f) \<Rightarrow> 'f \<Rightarrow> int64 \<Rightarrow> nat \<Rightarrow> int64 \<Rightarrow> int64 option" where
  "Jitter_loop F src factor duration k newDuration =
     (if newDuration \<le>s 0
      then Jitter_loop F src factor duration (k + 1)
             (Jitter_candidate F factor duration (src k))
      else Some newDuration)"

text \<open>
  The factor: \<^verbatim>\<open>factor := defaultJitterFactor\<close>;
  \<^verbatim>\<open>if len(maxFactor) > 0 && maxFactor[0] > 0.0 { factor = maxFactor[0] }\<close>. The variadic
  parameter is a list.
\<close>

definition Jitter_factor :: "'f float64_ops \<Rightarrow> 'f list \<Rightarrow> 'f" where
  "Jitter_factor F maxFactor =
     (case maxFactor of
        [] \<Rightarrow> defaultJitterFactor F
      | m # _ \<Rightarrow> if f_gt F m (f_lit F 0) then m else defaultJitterFactor F)"

text \<open>
  \<^verbatim>\<open>func Jitter(duration time.Duration, maxFactor ...float64) time.Duration\<close>, with
  \<^verbatim>\<open>newDuration := time.Duration(0)\<close> before the loop.
\<close>

definition Jitter :: "'f float64_ops \<Rightarrow> (nat \<Rightarrow> 'f) \<Rightarrow> int64 \<Rightarrow> 'f list \<Rightarrow> int64 option" where
  "Jitter F src duration maxFactor =
     (let factor = Jitter_factor F maxFactor
      in Jitter_loop F src factor duration 0 0)"

text \<open>
  One arithmetic to run the model on: exact rational numbers, with the conversion to a
  duration truncating towards zero.
\<close>

definition exact_ops :: "rat float64_ops" where
  "exact_ops =
     \<lparr>f_lit = (\<lambda>q. q), f_mul = (\<lambda>x y. x * y), f_sub = (\<lambda>x y. x - y),
      f_gt = (\<lambda>x y. y < x), f_of_duration = (\<lambda>d. of_int (sint d)),
      f_to_duration = (\<lambda>x. word_of_int (if 0 \<le> x then \<lfloor>x\<rfloor> else \<lceil>x\<rceil>))\<rparr>"

definition low_then_high_draws :: "nat \<Rightarrow> rat" where
  "low_then_high_draws k = (if k < 2 then 0 else 3 / 4)"

section \<open>String\<close>

text \<open>
  The integers of \<^verbatim>\<open>String\<close> and \<^verbatim>\<open>countBits\<close> are modelled as \<open>int\<close>: the length of
  a Go string is below \<open>2\<^sup>6\<^sup>3\<close>, so \<^verbatim>\<open>len(a)\<close>, the bit count (at most 63), the mask
  (at most \<open>2\<^sup>6\<^sup>3 - 1\<close>), the counters and the non-negative 63-bit draws never leave
  the range of the machine integer, and no operation on them wraps. On non-negative
  values \<^verbatim>\<open>>>\<close> is \<open>drop_bit\<close>, \<^verbatim>\<open>&\<close> is \<open>AND\<close> and \<^verbatim>\<open>/\<close> is \<open>div\<close>. A string is its
  list of bytes.
\<close>

definition AlphanumAlphabet :: string where
  "AlphanumAlphabet = ''abcdefghijklmnopqrstuvwxyz0123456789''"

definition DigitsAlphabet :: string where
  "DigitsAlphabet = ''0123456789''"

text \<open>\<^verbatim>\<open>for x--; x > 0; x >>= 1 { bitsNo++ }\<close>: the loop, after the decrement.\<close>

function countBits_loop :: "int \<Rightarrow> int \<Rightarrow> int" where
  "countBits_loop x bitsNo =
     (if x > 0 then countBits_loop (drop_bit 1 x) (bitsNo + 1) else bitsNo)"
  by pat_completeness auto
termination
  by (relation "measure (\<lambda>(x, bitsNo). nat x)") (auto simp: drop_bit_eq_div)

declare countBits_loop.simps [simp del]

definition countBits :: "int \<Rightarrow> int" where
  "countBits x = countBits_loop (x - 1) 0"

text \<open>
  The variables of the loop of \<^verbatim>\<open>String\<close>: the number of draws taken from the
  generator, \<^verbatim>\<open>randomInt63\<close>, \<^verbatim>\<open>remaining\<close>, the index \<^verbatim>\<open>i\<close> and the buffer \<^verbatim>\<open>b\<close>.
\<close>

record String_state =
  gen_pos :: nat
  randomInt63 :: int
  remaining :: int
  out_i :: int
  out_b :: string

text \<open>
  One iteration of the loop. The generator is the sequence \<open>src\<close> of the values its
  \<^verbatim>\<open>Int63()\<close> returns. Indexing \<^verbatim>\<open>a\<close> or \<^verbatim>\<open>b\<close> out of range is Go's run-time panic.
\<close>

definition String_body ::
  "(nat \<Rightarrow> int) \<Rightarrow> string \<Rightarrow> int \<Rightarrow> int \<Rightarrow> int \<Rightarrow> String_state \<Rightarrow> panic + String_state" where
  "String_body src a alphabetIdxBits alphabetIdxMask alphabetIdxMax s =
     (let s1 = (if remaining s = 0
                then s\<lparr>gen_pos := gen_pos s + 1, randomInt63 := src (gen_pos s),
                       remaining := alphabetIdxMax\<rparr>
                else s);
          alphabetIdx = randomInt63 s1 AND alphabetIdxMask
      in if alphabetIdx < int (length a)
         then (if alphabetIdx < 0 \<or> out_i s1 < 0 \<or> int (length (out_b s1)) \<le> out_i s1
               then Inl IndexOutOfRange
               else Inr (s1\<lparr>out_b := (out_b s1)[nat (out_i s1) := a ! nat alphabetIdx],
                            out_i := out_i s1 + 1,
                            randomInt63 := drop_bit (nat alphabetIdxBits) (randomInt63 s1),
                            remaining := remaining s1 - 1\<rparr>))
         else Inr (s1\<lparr>randomInt63 := drop_bit (nat alphabetIdxBits) (randomInt63 s1),
                      remaining := remaining s1 - 1\<rparr>))"

text \<open>
  \<^verbatim>\<open>for i := 0; i < n; { ... }\<close>: the loop has no bound on its iterations, so the
  result is an option, \<open>None\<close> for a run that never returns.
\<close>

partial_function (option) String_loop ::
  "(nat \<Rightarrow> int) \<Rightarrow> string \<Rightarrow> int \<Rightarrow> int \<Rightarrow> int \<Rightarrow> int \<Rightarrow> String_state
     \<Rightarrow> (panic + string) option" where
  "String_loop src a alphabetIdxBits alphabetIdxMask alphabetIdxMax n s =
     (if out_i s < n
      then (case String_body src a alphabetIdxBits alphabetIdxMask alphabetIdxMax s of
              Inl e \<Rightarrow> Some (Inl e)
            | Inr s' \<Rightarrow> String_loop src a alphabetIdxBits alphabetIdxMask alphabetIdxMax n s')
      else Some (Inr (out_b s)))"

text \<open>
  The alphabet \<^verbatim>\<open>a\<close> that \<^verbatim>\<open>String\<close> uses:
  \<^verbatim>\<open>if len(alphabet) > 0 && len(alphabet[0]) > 0 { a = alphabet[0] } else { a = AlphanumAlphabet }\<close>;
  the variadic parameter is a list.
\<close>

definition String_alphabet :: "string list \<Rightarrow> string" where
  "String_alphabet alphabet =
     (case alphabet of
        [] \<Rightarrow> AlphanumAlphabet
      | a0 # _ \<Rightarrow> if length a0 > 0 then a0 else AlphanumAlphabet)"

text \<open>
  \<^verbatim>\<open>func String(n int, alphabet ...string) string\<close>. The declarations run in the
  source's order: the bit count, the mask, the division \<^verbatim>\<open>63 / alphabetIdxBits\<close> (a
  run-time panic when the divisor is 0), then \<^verbatim>\<open>make([]byte, n)\<close> (a run-time panic
  when \<open>n\<close> is negative), then the first draw.
\<close>

definition String :: "(nat \<Rightarrow> int) \<Rightarrow> int \<Rightarrow> string list \<Rightarrow> (panic + string) option" where
  "String src n alphabet =
     (let a = String_alphabet alphabet;
          alphabetIdxBits = countBits (int (length a));
          alphabetIdxMask = push_bit (nat alphabetIdxBits) 1 - 1
      in if alphabetIdxBits = 0 then Some (Inl IntegerDivideByZero)
         else
           let alphabetIdxMax = 63 div alphabetIdxBits
           in if n < 0 then Some (Inl MakesliceLenOutOfRange)
              else String_loop src a alphabetIdxBits alphabetIdxMask alphabetIdxMax n
                     \<lparr>gen_pos = 1, randomInt63 = src 0, remaining = alphabetIdxMax,
                      out_i = 0, out_b = replicate (nat n) (CHR 0x00)\<rparr>)"

section \<open>The reference algorithm of the specification\<close>

text \<open>
  The algorithm of the specification's section 4.5, written from its words, to compare
  \<open>String\<close> with. Step 1: \<open>k\<close> is the smallest integer such that \<open>2\<^sup>k \<ge> |alphabet|\<close>,
  with the convention that an alphabet of size 1 needs \<open>k \<ge> 1\<close>. No \<open>k\<close> above
  \<open>|alphabet|\<close> needs to be tried, since \<open>2\<^sup>m \<ge> m\<close>.
\<close>

definition spec_bits :: "nat \<Rightarrow> nat" where
  "spec_bits m = max 1 (Min {k \<in> {0..m}. m \<le> 2 ^ k})"

text \<open>
  Step 4: the state is the current draw and the remaining-slots counter, with the number
  of draws taken so far and the symbols emitted so far.
\<close>

record spec_state =
  sp_used :: nat
  sp_draw :: int
  sp_slots :: int
  sp_out :: string

text \<open>
  Step 5: if remaining-slots is 0, take a fresh draw and reset remaining-slots to
  \<open>slotsPerDraw\<close>; extract the low \<open>k\<close> bits of the draw via the mask; if that value is
  below \<open>|alphabet|\<close>, emit \<open>alphabet[value]\<close>, otherwise discard it; always shift the draw
  right by \<open>k\<close> bits and decrement remaining-slots.
\<close>

definition spec_step ::
  "(nat \<Rightarrow> int) \<Rightarrow> string \<Rightarrow> nat \<Rightarrow> int \<Rightarrow> int \<Rightarrow> spec_state \<Rightarrow> spec_state" where
  "spec_step src a k kmask slotsPerDraw t =
     (let t1 = (if sp_slots t = 0
                then t\<lparr>sp_used := sp_used t + 1, sp_draw := src (sp_used t),
                       sp_slots := slotsPerDraw\<rparr>
                else t);
          v = sp_draw t1 AND kmask
      in t1\<lparr>sp_out := (if v < int (length a) then sp_out t1 @ [a ! nat v] else sp_out t1),
             sp_draw := drop_bit k (sp_draw t1),
             sp_slots := sp_slots t1 - 1\<rparr>)"

text \<open>Step 6: repeat until \<open>length\<close> symbols have been emitted.\<close>

partial_function (option) spec_loop ::
  "(nat \<Rightarrow> int) \<Rightarrow> string \<Rightarrow> nat \<Rightarrow> int \<Rightarrow> int \<Rightarrow> nat \<Rightarrow> spec_state \<Rightarrow> string option" where
  "spec_loop src a k kmask slotsPerDraw len t =
     (if length (sp_out t) < len
      then spec_loop src a k kmask slotsPerDraw len (spec_step src a k kmask slotsPerDraw t)
      else Some (sp_out t))"

text \<open>
  Steps 1 to 4: \<open>mask = (1 << k) - 1\<close>, \<open>slotsPerDraw = floor(63 / k)\<close>, a fresh draw to
  start with. The alphabet is optional; omitted or empty, it is the default one.
\<close>

definition RandomString_spec :: "(nat \<Rightarrow> int) \<Rightarrow> nat \<Rightarrow> string option \<Rightarrow> string option" where
  "RandomString_spec src len alphabet =
     (let a = (case alphabet of
                 None \<Rightarrow> AlphanumAlphabet
               | Some x \<Rightarrow> if x = [] then AlphanumAlphabet else x);
          k = spec_bits (length a);
          kmask = push_bit k 1 - 1;
          slotsPerDraw = 63 div int k
      in spec_loop src a k kmask slotsPerDraw len
           \<lparr>sp_used = 1, sp_draw = src 0, sp_slots = slotsPerDraw, sp_out = []\<rparr>)"

text \<open>
  The relation between a state of the loop of \<open>String\<close> and a state of the reference
  algorithm: the same generator position, draw and counter, and the first \<open>i\<close> bytes of
  the buffer are the symbols emitted.
\<close>

definition sim :: "int \<Rightarrow> String_state \<Rightarrow> spec_state \<Rightarrow> bool" where
  "sim n s t \<longleftrightarrow>
     gen_pos s = sp_used t \<and> randomInt63 s = sp_draw t \<and> remaining s = sp_slots t
     \<and> 0 \<le> out_i s \<and> out_i s \<le> n \<and> length (out_b s) = nat n
     \<and> take (nat (out_i s)) (out_b s) = sp_out t"

text \<open>Generators to run the model on.\<close>

definition zero_draws :: "nat \<Rightarrow> int" where
  "zero_draws k = 0"

definition ones_draws :: "nat \<Rightarrow> int" where
  "ones_draws k = 2 ^ 63 - 1"

definition counting_draws :: "nat \<Rightarrow> int" where
  "counting_draws k = 1234567890123456789 + 987654321987 * int k"

text \<open>
  The states of the loop of \<open>String\<close> for the alphabet \<open>''abc''\<close>, the length 1 and the
  generator \<open>ones_draws\<close> in which nothing has been written and every group still in the
  draw is \<open>11\<close>: the draw is a row of \<open>1 + 2 \<cdot> remaining\<close> ones.
\<close>

definition all_rejected :: "String_state \<Rightarrow> bool" where
  "all_rejected s \<longleftrightarrow>
     out_i s = 0 \<and> length (out_b s) = 1 \<and> 0 \<le> remaining s \<and> remaining s \<le> 31
     \<and> randomInt63 s = mask (1 + 2 * nat (remaining s))"

section \<open>The seed\<close>

lemma or_push_bit_nat:
  fixes x y :: nat
  assumes "x < 2 ^ n"
  shows "x OR push_bit n y = x + 2 ^ n * y"
proof -
  have "x AND push_bit n y = 0"
  proof (rule bit_eqI)
    fix m
    show "bit (x AND push_bit n y) m \<longleftrightarrow> bit (0::nat) m"
    proof (cases "m < n")
      case True then show ?thesis by (simp add: bit_simps)
    next
      case False
      then have "2 ^ n \<le> (2::nat) ^ m" by simp
      with assms have "x < 2 ^ m" by linarith
      then have "\<not> bit x m" by (simp add: bit_iff_odd)
      then show ?thesis by (simp add: bit_simps)
    qed
  qed
  then have "x + push_bit n y = x OR push_bit n y"
    by (rule disjunctive_add_eq_or)
  then show ?thesis by (simp add: push_bit_eq_mult mult.commute)
qed

lemma unat_byte_lt: "unat (w :: byte) < 256"
  using unsigned_less [of w, where 'a = nat] by simp

lemma unat_LittleEndian_Uint64:
  "unat (LittleEndian_Uint64 bs) = le_value bs"
proof -
  define c where "c k = unat (bs ! k)" for k
  have c: "c k < 256" for k unfolding c_def by (rule unat_byte_lt)
  have u: "unat (ucast (bs ! k) :: 64 word) = c k" for k
    by (simp add: c_def unsigned_ucast_eq take_bit_nat_eq_self unat_byte_lt [THEN less_trans])
  have p: "unat (push_bit n (ucast (bs ! k) :: 64 word)) = push_bit n (c k)" if "n \<le> 56" for n k
  proof -
    have "push_bit n (c k) < 2 ^ n * 2 ^ 8"
      using c [of k] by (simp add: push_bit_eq_mult)
    also have "\<dots> = (2::nat) ^ (n + 8)" by (simp add: power_add)
    also have "\<dots> \<le> 2 ^ 64" using that by (intro power_increasing) simp_all
    finally have "push_bit n (c k) < 2 ^ 64" .
    then show ?thesis
      by (simp add: unsigned_push_bit_eq u take_bit_nat_eq_self)
  qed
  have start: "unat (LittleEndian_Uint64 bs) =
      ((((((c 0 OR push_bit 8 (c 1)) OR push_bit 16 (c 2)) OR push_bit 24 (c 3))
        OR push_bit 32 (c 4)) OR push_bit 40 (c 5)) OR push_bit 48 (c 6)) OR push_bit 56 (c 7)"
    by (simp add: LittleEndian_Uint64_def unsigned_or_eq u p or.assoc)
  have e1: "c 0 OR push_bit 8 (c 1) = c 0 + 2 ^ 8 * c 1"
    using c [of 0] by (intro or_push_bit_nat) simp
  have e2: "(c 0 + 2 ^ 8 * c 1) OR push_bit 16 (c 2) = c 0 + 2 ^ 8 * c 1 + 2 ^ 16 * c 2"
    using c [of 0] c [of 1] by (intro or_push_bit_nat) simp
  have e3: "(c 0 + 2 ^ 8 * c 1 + 2 ^ 16 * c 2) OR push_bit 24 (c 3)
      = c 0 + 2 ^ 8 * c 1 + 2 ^ 16 * c 2 + 2 ^ 24 * c 3"
    using c [of 0] c [of 1] c [of 2] by (intro or_push_bit_nat) simp
  have e4: "(c 0 + 2 ^ 8 * c 1 + 2 ^ 16 * c 2 + 2 ^ 24 * c 3) OR push_bit 32 (c 4)
      = c 0 + 2 ^ 8 * c 1 + 2 ^ 16 * c 2 + 2 ^ 24 * c 3 + 2 ^ 32 * c 4"
    using c [of 0] c [of 1] c [of 2] c [of 3] by (intro or_push_bit_nat) simp
  have e5: "(c 0 + 2 ^ 8 * c 1 + 2 ^ 16 * c 2 + 2 ^ 24 * c 3 + 2 ^ 32 * c 4) OR push_bit 40 (c 5)
      = c 0 + 2 ^ 8 * c 1 + 2 ^ 16 * c 2 + 2 ^ 24 * c 3 + 2 ^ 32 * c 4 + 2 ^ 40 * c 5"
    using c [of 0] c [of 1] c [of 2] c [of 3] c [of 4] by (intro or_push_bit_nat) simp
  have e6: "(c 0 + 2 ^ 8 * c 1 + 2 ^ 16 * c 2 + 2 ^ 24 * c 3 + 2 ^ 32 * c 4 + 2 ^ 40 * c 5)
        OR push_bit 48 (c 6)
      = c 0 + 2 ^ 8 * c 1 + 2 ^ 16 * c 2 + 2 ^ 24 * c 3 + 2 ^ 32 * c 4 + 2 ^ 40 * c 5 + 2 ^ 48 * c 6"
    using c [of 0] c [of 1] c [of 2] c [of 3] c [of 4] c [of 5] by (intro or_push_bit_nat) simp
  have e7: "(c 0 + 2 ^ 8 * c 1 + 2 ^ 16 * c 2 + 2 ^ 24 * c 3 + 2 ^ 32 * c 4 + 2 ^ 40 * c 5
          + 2 ^ 48 * c 6) OR push_bit 56 (c 7)
      = c 0 + 2 ^ 8 * c 1 + 2 ^ 16 * c 2 + 2 ^ 24 * c 3 + 2 ^ 32 * c 4 + 2 ^ 40 * c 5
          + 2 ^ 48 * c 6 + 2 ^ 56 * c 7"
    using c [of 0] c [of 1] c [of 2] c [of 3] c [of 4] c [of 5] c [of 6]
    by (intro or_push_bit_nat) simp
  have "unat (LittleEndian_Uint64 bs) = c 0 + 2 ^ 8 * c 1 + 2 ^ 16 * c 2 + 2 ^ 24 * c 3
      + 2 ^ 32 * c 4 + 2 ^ 40 * c 5 + 2 ^ 48 * c 6 + 2 ^ 56 * c 7"
    by (simp only: start e1 e2 e3 e4 e5 e6 e7)
  also have "\<dots> = le_value bs"
    by (simp add: le_value_def c_def)
  finally show ?thesis .
qed

lemma mask63: "(push_bit 63 1 - 1 :: 64 word) = mask 63"
  by (simp add: mask_eq_exp_minus_1 push_bit_eq_mult)

lemma sint_eq_unat_small:
  fixes w :: "64 word"
  assumes "unat w < 2 ^ 63"
  shows "sint w = int (unat w)"
proof -
  have "int (unat w) < int (2 ^ 63)" using assms by (simp only: of_nat_less_iff)
  then have "int (unat w) < 2 ^ 63" by simp
  then have lt: "uint w < 2 ^ 63" by (simp only: uint_nat)
  have "- (2 ^ 63) \<le> (0::int)" by simp
  then have ge: "- (2 ^ 63) \<le> uint w"
    using uint_ge_0 [of w] by (rule order_trans)
  have "signed_take_bit 63 (uint w) = uint w"
    by (rule signed_take_bit_int_eq_self [OF ge lt])
  then have "sint w = uint w" by (simp add: sint_uint)
  then show ?thesis by (simp only: uint_nat)
qed

text \<open>
  Claim C7. When the secure read succeeds (no error), the seed is the eight bytes read as
  a little-endian unsigned 64-bit number with the sign bit cleared: its value is that
  number modulo \<open>2\<^sup>6\<^sup>3\<close>, it is the number masked with \<open>0x7FFFFFFFFFFFFFFF\<close>, and it
  is not negative. When the read returns an error, the seed is the wall-clock time in
  nanoseconds.
\<close>

theorem getRandSeed_seed:
  "length bs = 8 \<Longrightarrow>
   sint (getRandSeed (bs, None) now) = int (le_value bs mod 2 ^ 63)
   \<and> getRandSeed (bs, None) now = LittleEndian_Uint64 bs AND 0x7FFFFFFFFFFFFFFF
   \<and> 0 \<le>s getRandSeed (bs, None) now
   \<and> sint (getRandSeed (bs, None) now) < 2 ^ 63
   \<and> getRandSeed (bs, Some err) now = now"
proof -
  have seed: "getRandSeed (bs, None) now = take_bit 63 (LittleEndian_Uint64 bs)"
    by (simp only: getRandSeed_def mask63 take_bit_eq_mask prod.case option.case)
  have u: "unat (getRandSeed (bs, None) now) = le_value bs mod 2 ^ 63"
  proof -
    have "unat (take_bit 63 (LittleEndian_Uint64 bs)) = take_bit 63 (unat (LittleEndian_Uint64 bs))"
      by (rule unsigned_take_bit_eq)
    also have "\<dots> = unat (LittleEndian_Uint64 bs) mod 2 ^ 63"
      by (rule take_bit_eq_mod)
    finally show ?thesis by (simp only: seed unat_LittleEndian_Uint64)
  qed
  have "le_value bs mod 2 ^ 63 < 2 ^ 63" by simp
  then have lt: "unat (getRandSeed (bs, None) now) < 2 ^ 63" by (simp only: u)
  have s: "sint (getRandSeed (bs, None) now) = int (le_value bs mod 2 ^ 63)"
    using sint_eq_unat_small [OF lt] by (simp only: u)
  have nonneg: "0 \<le>s getRandSeed (bs, None) now"
    by (simp only: word_sle_eq s sint_0)
  have m: "getRandSeed (bs, None) now = LittleEndian_Uint64 bs AND 0x7FFFFFFFFFFFFFFF"
    by (simp add: getRandSeed_def)
  have below: "sint (getRandSeed (bs, None) now) < 2 ^ 63"
    using sint_lt [of "getRandSeed (bs, None) now"] by simp
  have fallback: "getRandSeed (bs, Some err) now = now"
    by (simp add: getRandSeed_def)
  from s m nonneg below fallback show ?thesis by (intro conjI)
qed

theorem getRandSeed_seed_witness:
  "length [1, 2, 3, 4, 5, 6, 7, 200 :: byte] = 8
   \<and> sint (getRandSeed ([1, 2, 3, 4, 5, 6, 7, 200], None) 1700000000000000000)
       = int (le_value [1, 2, 3, 4, 5, 6, 7, 200] mod 2 ^ 63)
   \<and> getRandSeed ([1, 2, 3, 4, 5, 6, 7, 200], None) 1700000000000000000 = 0x4807060504030201
   \<and> le_value [1, 2, 3, 4, 5, 6, 7, 200] = 0xC807060504030201
   \<and> getRandSeed ([0, 0, 0, 0, 0, 0, 0, 0], Some ''EOF'') 1700000000000000000
       = 1700000000000000000"
  using getRandSeed_seed [of "[1, 2, 3, 4, 5, 6, 7, 200]" 1700000000000000000 "''EOF''"]
  by (simp add: getRandSeed_def LittleEndian_Uint64_def le_value_def)

section \<open>Intn and IntnBetween: range and panics\<close>

lemma sint_word_of_int_mod:
  assumes "0 <s (n :: int64)"
  shows "sint (word_of_int (raw mod sint n) :: int64) = raw mod sint n"
proof -
  have pos: "0 < sint n" using assms by (simp add: word_sless_alt)
  have lt: "sint n < 2 ^ 63" using sint_lt [of n] by simp
  have "0 \<le> raw mod sint n" and "raw mod sint n < sint n"
    using pos by simp_all
  then show ?thesis using lt
    by (simp add: sint_sbintrunc' signed_take_bit_int_eq_self)
qed

text \<open>Every value of \<open>[0, n)\<close> is what \<open>Intn\<close> returns in some state of the generator.\<close>

lemma Intn_every_value:
  assumes "0 \<le>s r" and "r <s n"
  shows "Intn (sint r) n = Inr r"
proof -
  have r0: "0 \<le> sint r" and rn: "sint r < sint n"
    using assms by (simp_all add: word_sle_eq word_sless_alt)
  then have "\<not> n \<le>s 0" by (simp add: word_sle_eq)
  moreover have "sint r mod sint n = sint r" using r0 rn by simp
  ultimately show ?thesis by (simp add: Intn_def mRand_Intn_def)
qed

text \<open>
  Claim C5. For every \<open>n > 0\<close>, \<open>Intn\<close> returns an integer of \<open>[0, n)\<close>, never \<open>n\<close> and
  never a negative one; for every \<open>n \<le> 0\<close> it panics.
\<close>

theorem Intn_range:
  "(0 <s n \<longrightarrow> (\<exists>r. Intn raw n = Inr r \<and> 0 \<le>s r \<and> r <s n))
   \<and> (n \<le>s 0 \<longrightarrow> Intn raw n = Inl InvalidArgumentToIntn)"
proof (intro conjI impI)
  assume pos: "0 <s n"
  then have "\<not> n \<le>s 0" by (simp add: word_sless_alt word_sle_eq)
  moreover have "0 < sint n" using pos by (simp add: word_sless_alt)
  ultimately show "\<exists>r. Intn raw n = Inr r \<and> 0 \<le>s r \<and> r <s n"
    by (simp add: Intn_def mRand_Intn_def word_sle_eq word_sless_alt
        sint_word_of_int_mod [OF pos])
next
  assume "n \<le>s 0"
  then show "Intn raw n = Inl InvalidArgumentToIntn"
    by (simp add: Intn_def mRand_Intn_def)
qed

theorem Intn_range_witness:
  "0 <s (10 :: int64) \<and> Intn 27 10 = Inr 7 \<and> 0 \<le>s (7 :: int64) \<and> (7 :: int64) <s 10
   \<and> (0 :: int64) \<le>s 0 \<and> Intn 27 0 = Inl InvalidArgumentToIntn"
  using Intn_range [of 10 27] Intn_range [of 0 27]
  by (simp add: Intn_def mRand_Intn_def word_sle_eq word_sless_alt)

text \<open>
  The subtraction \<^verbatim>\<open>max-min\<close> on the machine integer: exact when the difference fits,
  \<open>2\<^sup>6\<^sup>4\<close> too small when it does not. \<open>IntnBetween\<close> is in range in the first case and
  panics in the second.
\<close>

lemma sint_bounds64:
  fixes w :: int64
  shows "- (2 ^ 63) \<le> sint w" and "sint w < 2 ^ 63"
  using sint_ge [of w] sint_lt [of w] by simp_all

lemma sint_diff_no_overflow:
  fixes a b :: int64
  assumes "sint b \<le> sint a" and "sint a - sint b < 2 ^ 63"
  shows "sint (a - b) = sint a - sint b"
proof -
  have "- (2 ^ 63) \<le> sint a - sint b" using assms(1) by simp
  then have "signed_take_bit 63 (sint a - sint b) = sint a - sint b"
    using assms(2) by (rule signed_take_bit_int_eq_self)
  then show ?thesis by (simp add: sint_word_diff)
qed

lemma sint_diff_overflow:
  fixes a b :: int64
  assumes "2 ^ 63 \<le> sint a - sint b"
  shows "sint (a - b) = sint a - sint b - 2 ^ 64"
proof -
  define D where "D = sint a - sint b"
  have "D < 2 ^ 64" using sint_bounds64 [of a] sint_bounds64 [of b] by (simp add: D_def)
  have ge: "2 ^ 63 \<le> D" using assms by (simp add: D_def)
  have "take_bit 64 (D + 2 ^ 63) = (D + 2 ^ 63) mod 2 ^ 64" by (simp add: take_bit_eq_mod)
  also have "\<dots> = (D + 2 ^ 63 - 2 ^ 64) mod 2 ^ 64"
    by (simp only: minus_mod_self2)
  also have "\<dots> = D + 2 ^ 63 - 2 ^ 64"
    using ge \<open>D < 2 ^ 64\<close> by (intro mod_pos_pos_trivial) simp_all
  finally have "signed_take_bit 63 D = D - 2 ^ 64"
    by (simp add: signed_take_bit_eq_take_bit_shift)
  then show ?thesis by (simp add: sint_word_diff D_def)
qed

lemma IntnBetween_overflow:
  assumes "2 ^ 63 \<le> sint max_v - sint min_v"
  shows "max_v - min_v \<le>s 0 \<and> IntnBetween raw min_v max_v = Inl InvalidArgumentToIntn"
proof -
  have "sint (max_v - min_v) = sint max_v - sint min_v - 2 ^ 64"
    using assms by (rule sint_diff_overflow)
  moreover have "sint max_v - sint min_v < 2 ^ 64"
    using sint_bounds64 [of max_v] sint_bounds64 [of min_v] by simp
  ultimately have "sint (max_v - min_v) \<le> 0" by simp
  then have "max_v - min_v \<le>s 0" by (simp add: word_sle_eq)
  then show ?thesis by (simp add: IntnBetween_def mRand_Intn_def)
qed

lemma IntnBetween_in_range:
  assumes lt: "min_v <s max_v" and fits: "sint max_v - sint min_v < 2 ^ 63"
  shows "\<exists>q. Intn raw (max_v - min_v) = Inr q
           \<and> IntnBetween raw min_v max_v = Inr (q + min_v)
           \<and> min_v \<le>s q + min_v \<and> q + min_v <s max_v"
proof -
  define d where "d = max_v - min_v"
  define q :: int64 where "q = word_of_int (raw mod sint d)"
  have lt': "sint min_v < sint max_v" using lt by (simp add: word_sless_alt)
  have sd: "sint d = sint max_v - sint min_v"
    unfolding d_def using lt' fits by (intro sint_diff_no_overflow) simp_all
  have dpos: "0 <s d" using sd lt' by (simp add: word_sless_alt)
  have sq: "sint q = raw mod sint d"
    unfolding q_def by (rule sint_word_of_int_mod [OF dpos])
  have q0: "0 \<le> sint q" and q1: "sint q < sint d"
    using sd lt' by (simp_all add: sq)
  have "- (2 ^ 63) \<le> sint q + sint min_v"
    using q0 sint_bounds64(1) [of min_v] by linarith
  moreover have "sint q + sint min_v < 2 ^ 63"
    using q1 sd sint_bounds64(2) [of max_v] by linarith
  ultimately have "signed_take_bit 63 (sint q + sint min_v) = sint q + sint min_v"
    by (rule signed_take_bit_int_eq_self)
  then have sr: "sint (q + min_v) = sint q + sint min_v"
    by (simp add: sint_word_add)
  have nd: "\<not> d \<le>s 0" using dpos by (simp add: word_sless_alt word_sle_eq)
  have "Intn raw (max_v - min_v) = Inr q"
    using nd by (simp add: Intn_def mRand_Intn_def d_def [symmetric] q_def)
  moreover have "IntnBetween raw min_v max_v = Inr (q + min_v)"
    using nd by (simp add: IntnBetween_def mRand_Intn_def d_def [symmetric] q_def)
  moreover have "min_v \<le>s q + min_v" using q0 by (simp add: word_sle_eq sr)
  moreover have "q + min_v <s max_v" using q1 sd by (simp add: word_sless_alt sr)
  ultimately show ?thesis by blast
qed

text \<open>
  Claim C6. The claim is that \<open>IntnBetween\<close> returns a value of \<open>[min, max)\<close> for every
  \<open>min < max\<close> and panics for every \<open>max \<le> min\<close>. The code does neither at the ends of the
  machine integer, where \<^verbatim>\<open>max-min\<close> wraps around: with \<open>min = -5\<cdot>10\<^sup>1\<^sup>8\<close> and
  \<open>max = 5\<cdot>10\<^sup>1\<^sup>8\<close> the difference wraps to a negative number and the call panics;
  with \<open>min = 5\<cdot>10\<^sup>1\<^sup>8\<close> and \<open>max = -5\<cdot>10\<^sup>1\<^sup>8\<close> the difference wraps to a positive
  number and the call returns \<open>min\<close>, which is not below \<open>max\<close>.
\<close>

theorem IntnBetween_wraps_at_extremes:
  "(- 5000000000000000000 :: int64) <s 5000000000000000000
   \<and> IntnBetween raw (- 5000000000000000000) 5000000000000000000 = Inl InvalidArgumentToIntn
   \<and> IntnBetween 0 5000000000000000000 (- 5000000000000000000) = Inr 5000000000000000000"
  by (simp add: IntnBetween_def mRand_Intn_def word_sle_eq word_sless_alt)

text \<open>
  Claim C10. For some \<open>min < max\<close> the subtraction \<^verbatim>\<open>max-min\<close> overflows and wraps to a
  non-positive value, and \<open>IntnBetween\<close> panics although \<open>max > min\<close>: so it is whenever
  the difference is \<open>2\<^sup>6\<^sup>3\<close> or more, as for the least and the greatest machine integer,
  whose difference wraps to \<open>-1\<close>.
\<close>

theorem IntnBetween_overflow_panics:
  assumes "min_v <s max_v" and "2 ^ 63 \<le> sint max_v - sint min_v"
  shows "max_v - min_v \<le>s 0 \<and> IntnBetween raw min_v max_v = Inl InvalidArgumentToIntn"
  using assms(2) by (rule IntnBetween_overflow)

theorem IntnBetween_overflow_panics_witness:
  "(- 9223372036854775808 :: int64) <s 9223372036854775807
   \<and> (2 :: int) ^ 63 \<le> sint (9223372036854775807 :: int64) - sint (- 9223372036854775808 :: int64)
   \<and> (9223372036854775807 :: int64) - (- 9223372036854775808) = - 1
   \<and> (9223372036854775807 :: int64) - (- 9223372036854775808) \<le>s 0
   \<and> IntnBetween 12345 (- 9223372036854775808) 9223372036854775807 = Inl InvalidArgumentToIntn"
proof -
  have lt: "(- 9223372036854775808 :: int64) <s 9223372036854775807"
    by (simp add: word_sless_alt)
  have big: "(2 :: int) ^ 63 \<le> sint (9223372036854775807 :: int64) - sint (- 9223372036854775808 :: int64)"
    by simp
  have wrap: "(9223372036854775807 :: int64) - (- 9223372036854775808) = - 1"
    by simp
  from lt big wrap IntnBetween_overflow_panics [OF lt big, of 12345] show ?thesis
    by (intro conjI) simp_all
qed

section \<open>Jitter: the loop\<close>

lemmas Jitter_loop_induct = Jitter_loop.raw_induct [rotated 1, consumes 1, case_names step]

lemma Jitter_loop_result:
  assumes "Jitter_loop F src factor duration k nd = Some r"
  shows "0 <s r \<and> (r = nd \<or> (\<exists>j. r = Jitter_candidate F factor duration (src j)))"
  using assms
proof (induct rule: Jitter_loop_induct)
  case (step Jl F src factor duration k nd r)
  show ?case
  proof (cases "nd \<le>s 0")
    case False
    with step.hyps(2) show ?thesis by (simp add: word_sle_eq word_sless_alt)
  next
    case True
    with step.hyps(2)
    have "Jl F src factor duration (k + 1) (Jitter_candidate F factor duration (src k)) = Some r"
      by simp
    from step.hyps(1) [OF this] show ?thesis by blast
  qed
qed



text \<open>
  Claim C3. Whenever \<open>Jitter\<close> returns, the duration it returns is strictly greater than
  0, for every input duration, every factor, every sequence of draws and every
  floating-point arithmetic; and the value is not clamped: it is the candidate
  \<open>duration + jitter\<close> of one of the draws.
\<close>

theorem Jitter_positive:
  "Jitter F src duration maxFactor = Some r \<Longrightarrow>
     0 <s r \<and> (\<exists>j. r = Jitter_candidate F (Jitter_factor F maxFactor) duration (src j))"
proof -
  assume "Jitter F src duration maxFactor = Some r"
  then have run: "Jitter_loop F src (Jitter_factor F maxFactor) duration 0 0 = Some r"
    by (simp add: Jitter_def)
  from Jitter_loop_result [OF run]
  have pos: "0 <s r"
    and c: "r = 0 \<or> (\<exists>j. r = Jitter_candidate F (Jitter_factor F maxFactor) duration (src j))"
    by blast+
  from pos have "r \<noteq> 0" by (auto simp: word_sless_alt)
  with pos c show ?thesis by blast
qed

theorem Jitter_positive_witness:
  "Jitter exact_ops low_then_high_draws 1 [100] = Some 51 \<and> (0 :: int64) <s 51
   \<and> Jitter_candidate exact_ops (Jitter_factor exact_ops [100]) 1 (low_then_high_draws 2) = 51"
proof -
  have run: "Jitter exact_ops low_then_high_draws 1 [100] = Some 51"
    by (simp add: Jitter_def Jitter_factor_def Jitter_loop.simps Jitter_candidate_def
        exact_ops_def low_then_high_draws_def defaultJitterFactor_def word_sle_eq)
  have c: "Jitter_candidate exact_ops (Jitter_factor exact_ops [100]) 1 (low_then_high_draws 2) = 51"
    by (simp add: Jitter_factor_def Jitter_candidate_def exact_ops_def low_then_high_draws_def)
  from run c Jitter_positive [OF run] show ?thesis by simp
qed



section \<open>countBits\<close>

text \<open>
  For \<open>m \<ge> 1\<close>, \<open>countBits m\<close> is the least \<open>k\<close> with \<open>m \<le> 2\<^sup>k\<close>: 0 for \<open>m = 1\<close>, positive
  from \<open>m = 2\<close> on, at most 63 for the length of a Go string.
\<close>

lemma countBits_loop_0: "countBits_loop 0 bitsNo = bitsNo"
  by (subst countBits_loop.simps) simp

lemma countBits_loop_pos:
  "0 < x \<Longrightarrow> countBits_loop x bitsNo = countBits_loop (drop_bit 1 x) (bitsNo + 1)"
  by (subst countBits_loop.simps) simp

lemma countBits_loop_bits:
  "0 \<le> x \<Longrightarrow> \<exists>k. countBits_loop x bitsNo = bitsNo + int k \<and> nat x < 2 ^ k
      \<and> (0 < x \<longrightarrow> 2 ^ (k - 1) \<le> nat x \<and> 0 < k)"
proof (induction x bitsNo rule: countBits_loop.induct)
  case (1 x bitsNo)
  show ?case
  proof (cases "0 < x")
    case False
    with "1.prems" have "x = 0" by simp
    then show ?thesis by (intro exI [of _ 0]) (simp add: countBits_loop_0)
  next
    case True
    have half: "0 \<le> drop_bit 1 x" using "1.prems" by (simp add: drop_bit_eq_div)
    from "1.IH" [OF True half] obtain k where
      k1: "countBits_loop (drop_bit 1 x) (bitsNo + 1) = bitsNo + 1 + int k"
      and k2: "nat (drop_bit 1 x) < 2 ^ k"
      and k3: "0 < drop_bit 1 x \<longrightarrow> 2 ^ (k - 1) \<le> nat (drop_bit 1 x) \<and> 0 < k"
      by blast
    have d: "nat (drop_bit 1 x) = nat x div 2"
      using "1.prems" by (simp add: drop_bit_eq_div nat_div_distrib)
    have eq: "countBits_loop x bitsNo = bitsNo + int (Suc k)"
      using k1 by (simp add: countBits_loop_pos [OF True])
    have "nat x div 2 < 2 ^ k" using k2 by (simp only: d)
    then have up: "nat x < 2 ^ Suc k" by simp
    have low: "2 ^ (Suc k - 1) \<le> nat x"
    proof (cases "0 < drop_bit 1 x")
      case True
      with k3 have a: "2 ^ (k - 1) \<le> nat (drop_bit 1 x)" and b: "0 < k" by blast+
      from a have "2 ^ (k - 1) \<le> nat x div 2" by (simp only: d)
      then have "2 * 2 ^ (k - 1) \<le> nat x" by arith
      moreover have "(2::nat) * 2 ^ (k - 1) = 2 ^ k" using b by (cases k) simp_all
      ultimately show ?thesis by simp
    next
      case False
      with half have z: "drop_bit 1 x = 0" by linarith
      have "k = 0" using k1 unfolding z countBits_loop_0 by simp
      moreover have "1 \<le> nat x" using True by simp
      ultimately show ?thesis by simp
    qed
    from eq up low show ?thesis by (intro exI [of _ "Suc k"]) simp
  qed
qed

lemma countBits_least:
  assumes "1 \<le> m"
  shows "countBits (int m) = int (LEAST k. m \<le> 2 ^ k)"
proof -
  have "0 \<le> int m - 1" using assms by simp
  from countBits_loop_bits [OF this, of 0] obtain k where
    k1: "countBits (int m) = int k" and k2: "nat (int m - 1) < 2 ^ k"
    and k3: "0 < int m - 1 \<longrightarrow> 2 ^ (k - 1) \<le> nat (int m - 1) \<and> 0 < k"
    unfolding countBits_def by auto
  have n: "nat (int m - 1) = m - 1" by simp
  have "m - 1 < 2 ^ k" using k2 by (simp only: n)
  then have up: "m \<le> 2 ^ k" by simp
  have "(LEAST k. m \<le> 2 ^ k) = k"
  proof (rule Least_equality)
    show "m \<le> 2 ^ k" by (rule up)
  next
    fix j assume j: "m \<le> 2 ^ j"
    show "k \<le> j"
    proof (cases "m = 1")
      case True
      then have "countBits (int m) = 0" by (simp add: countBits_def countBits_loop_0)
      with k1 show ?thesis by simp
    next
      case False
      with assms have "0 < int m - 1" by simp
      with k3 have a: "2 ^ (k - 1) \<le> nat (int m - 1)" and b: "0 < k" by blast+
      from a have "2 ^ (k - 1) \<le> m - 1" by (simp only: n)
      then have "(2::nat) ^ (k - 1) < 2 ^ j" using j assms by linarith
      then have "k - 1 < j" by simp
      with b show ?thesis by simp
    qed
  qed
  with k1 show ?thesis by simp
qed

lemma countBits_pos:
  assumes "2 \<le> m"
  shows "0 < countBits (int m)"
proof -
  have "0 < int m - 1" using assms by simp
  then have "countBits (int m) = countBits_loop (drop_bit 1 (int m - 1)) 1"
    by (simp add: countBits_def countBits_loop_pos)
  moreover have "0 \<le> drop_bit 1 (int m - 1)" using assms by (simp add: drop_bit_eq_div)
  from countBits_loop_bits [OF this, of 1] have "1 \<le> countBits_loop (drop_bit 1 (int m - 1)) 1"
    by auto
  ultimately show ?thesis by simp
qed

lemma countBits_le_63:
  assumes "1 \<le> m" and "m \<le> 2 ^ 63"
  shows "countBits (int m) \<le> 63"
proof -
  have "(LEAST k. m \<le> 2 ^ k) \<le> 63" using assms(2) by (rule Least_le)
  then show ?thesis by (simp add: countBits_least [OF assms(1)])
qed

section \<open>String: alphabets of two symbols or more\<close>

text \<open>
  For an alphabet of at least two symbols and \<open>n \<ge> 0\<close> the loop keeps \<open>0 \<le> i \<le> n\<close>, the
  length of the buffer and the membership of the bytes written so far: no index is out of
  range, and a result is a string of \<open>n\<close> bytes of the alphabet.
\<close>

lemmas String_loop_induct = String_loop.raw_induct [rotated 1, consumes 1, case_names step]

lemma String_body_step:
  assumes m: "0 \<le> alphabetIdxMask" and i0: "0 \<le> out_i s"
    and i1: "out_i s < int (length (out_b s))"
  shows "\<exists>s'. String_body src a alphabetIdxBits alphabetIdxMask alphabetIdxMax s = Inr s'
           \<and> length (out_b s') = length (out_b s)
           \<and> out_i s \<le> out_i s' \<and> out_i s' \<le> out_i s + 1
           \<and> ((\<forall>j<nat (out_i s). out_b s ! j \<in> set a)
                \<longrightarrow> (\<forall>j<nat (out_i s'). out_b s' ! j \<in> set a))"
proof -
  define s1 where "s1 = (if remaining s = 0
      then s\<lparr>gen_pos := gen_pos s + 1, randomInt63 := src (gen_pos s),
             remaining := alphabetIdxMax\<rparr>
      else s)"
  define idx where "idx = randomInt63 s1 AND alphabetIdxMask"
  have o: "out_i s1 = out_i s" "out_b s1 = out_b s" by (simp_all add: s1_def)
  have idx0: "0 \<le> idx" using m by (simp add: idx_def)
  show ?thesis
  proof (cases "idx < int (length a)")
    case False
    then have "String_body src a alphabetIdxBits alphabetIdxMask alphabetIdxMax s =
        Inr (s1\<lparr>randomInt63 := drop_bit (nat alphabetIdxBits) (randomInt63 s1),
                remaining := remaining s1 - 1\<rparr>)"
      unfolding String_body_def Let_def s1_def [symmetric] idx_def [symmetric] by simp
    then show ?thesis by (simp add: o)
  next
    case True
    then have b: "String_body src a alphabetIdxBits alphabetIdxMask alphabetIdxMax s =
        Inr (s1\<lparr>out_b := (out_b s1)[nat (out_i s1) := a ! nat idx],
                out_i := out_i s1 + 1,
                randomInt63 := drop_bit (nat alphabetIdxBits) (randomInt63 s1),
                remaining := remaining s1 - 1\<rparr>)"
      unfolding String_body_def Let_def s1_def [symmetric] idx_def [symmetric]
      using idx0 i0 i1 by (simp add: o)
    have mem: "a ! nat idx \<in> set a" using True idx0 by (intro nth_mem) linarith
    have "\<forall>j<nat (out_i s + 1). (out_b s)[nat (out_i s) := a ! nat idx] ! j \<in> set a"
      if old: "\<forall>j<nat (out_i s). out_b s ! j \<in> set a"
    proof (intro allI impI)
      fix j assume j: "j < nat (out_i s + 1)"
      show "(out_b s)[nat (out_i s) := a ! nat idx] ! j \<in> set a"
      proof (cases "j = nat (out_i s)")
        case True
        then show ?thesis using i0 i1 mem by simp
      next
        case False
        with j i0 have "j < nat (out_i s)" by linarith
        with old False show ?thesis by simp
      qed
    qed
    then show ?thesis by (simp add: b o)
  qed
qed

lemma String_loop_correct:
  assumes "String_loop src a alphabetIdxBits alphabetIdxMask alphabetIdxMax n s = Some res"
    and "0 \<le> alphabetIdxMask" and "0 \<le> out_i s" and "out_i s \<le> n"
    and "length (out_b s) = nat n" and "\<forall>j<nat (out_i s). out_b s ! j \<in> set a"
  shows "\<exists>r. res = Inr r \<and> length r = nat n \<and> set r \<subseteq> set a"
  using assms
proof (induct rule: String_loop_induct)
  case (step loop src a alphabetIdxBits alphabetIdxMask alphabetIdxMax n s res)
  show ?case
  proof (cases "out_i s < n")
    case False
    with step.prems(3) have e: "out_i s = n" by simp
    from step.hyps(2) False have res: "res = Inr (out_b s)" by simp
    have "set (out_b s) \<subseteq> set a"
    proof
      fix c assume "c \<in> set (out_b s)"
      then obtain j where "j < length (out_b s)" "out_b s ! j = c"
        by (auto simp: in_set_conv_nth)
      with step.prems(4,5) e show "c \<in> set a" by auto
    qed
    with res step.prems(4) show ?thesis by simp
  next
    case True
    with step.prems(2,4) have "out_i s < int (length (out_b s))" by simp
    from String_body_step [OF step.prems(1,2) this, of src a alphabetIdxBits alphabetIdxMax]
    obtain s' where s': "String_body src a alphabetIdxBits alphabetIdxMask alphabetIdxMax s = Inr s'"
      "length (out_b s') = length (out_b s)" "out_i s \<le> out_i s'" "out_i s' \<le> out_i s + 1"
      "(\<forall>j<nat (out_i s). out_b s ! j \<in> set a) \<longrightarrow> (\<forall>j<nat (out_i s'). out_b s' ! j \<in> set a)"
      by blast
    from step.hyps(2) True s'(1)
    have run: "loop src a alphabetIdxBits alphabetIdxMask alphabetIdxMax n s' = Some res" by simp
    show ?thesis
    proof (rule step.hyps(1) [OF run step.prems(1)])
      show "0 \<le> out_i s'" using step.prems(2) s'(3) by simp
      show "out_i s' \<le> n" using True s'(4) by simp
      show "length (out_b s') = nat n" using s'(2) step.prems(4) by simp
      show "\<forall>j<nat (out_i s'). out_b s' ! j \<in> set a" using s'(5) step.prems(5) by blast
    qed
  qed
qed

lemma mask_nonneg: "0 \<le> (push_bit k 1 - 1 :: int)"
  by (simp add: push_bit_eq_mult)

lemma String_partial_correct:
  assumes big: "2 \<le> length (String_alphabet alphabet)" and n0: "0 \<le> n"
    and run: "String src n alphabet = Some res"
  shows "\<exists>r. res = Inr r \<and> length r = nat n \<and> set r \<subseteq> set (String_alphabet alphabet)"
proof -
  have k: "countBits (int (length (String_alphabet alphabet))) \<noteq> 0"
    using countBits_pos [OF big] by simp
  from run k n0 show ?thesis
    unfolding String_def Let_def
    by (simp only: if_False not_less [symmetric]) (rule String_loop_correct, assumption, auto simp: mask_nonneg)
qed

lemma String_zero_length:
  assumes "2 \<le> length (String_alphabet alphabet)"
  shows "String src 0 alphabet = Some (Inr [])"
  using countBits_pos [OF assms]
  by (simp add: String_def Let_def String_loop.simps)

text \<open>
  The loop has no bound on its iterations. It returns whenever the first group of every
  draw is accepted, since a fresh draw then always adds a symbol.
\<close>

lemma String_body_progress:
  assumes m: "0 \<le> alphabetIdxMask" and i0: "0 \<le> out_i s"
    and i1: "out_i s < int (length (out_b s))"
    and b: "String_body src a alphabetIdxBits alphabetIdxMask alphabetIdxMax s = Inr s'"
  shows "remaining s' = (if remaining s = 0 then alphabetIdxMax else remaining s) - 1"
    and "(if remaining s = 0 then src (gen_pos s) else randomInt63 s) AND alphabetIdxMask
           < int (length a) \<Longrightarrow> out_i s' = out_i s + 1"
proof -
  have idx0: "0 \<le> x AND alphabetIdxMask" for x using m by simp
  show "remaining s' = (if remaining s = 0 then alphabetIdxMax else remaining s) - 1"
    using b i0 i1 idx0 unfolding String_body_def Let_def
    by (auto split: if_splits)
  show "out_i s' = out_i s + 1"
    if "(if remaining s = 0 then src (gen_pos s) else randomInt63 s) AND alphabetIdxMask
           < int (length a)"
    using that b i0 i1 idx0 unfolding String_body_def Let_def
    by (auto split: if_splits)
qed

lemma String_loop_returns:
  assumes m: "0 \<le> alphabetIdxMask" and mx: "1 \<le> alphabetIdxMax" "alphabetIdxMax \<le> 63"
    and fresh: "\<And>p. src p AND alphabetIdxMask < int (length a)"
  shows "0 \<le> out_i s \<Longrightarrow> out_i s \<le> n \<Longrightarrow> length (out_b s) = nat n
    \<Longrightarrow> 0 \<le> remaining s \<Longrightarrow> remaining s \<le> alphabetIdxMax
    \<Longrightarrow> \<exists>r. String_loop src a alphabetIdxBits alphabetIdxMask alphabetIdxMax n s = Some (Inr r)"
proof (induction "nat (n - out_i s) * 64 + nat (remaining s)" arbitrary: s rule: less_induct)
  case less
  show ?case
  proof (cases "out_i s < n")
    case False
    then show ?thesis by (subst String_loop.simps) simp
  next
    case True
    with less.prems(1,3) have i1: "out_i s < int (length (out_b s))" by simp
    from String_body_step [OF m less.prems(1) i1, of src a alphabetIdxBits alphabetIdxMax]
    obtain s' where s': "String_body src a alphabetIdxBits alphabetIdxMask alphabetIdxMax s = Inr s'"
      "length (out_b s') = length (out_b s)" "out_i s \<le> out_i s'" "out_i s' \<le> out_i s + 1"
      by blast
    note pr = String_body_progress [OF m less.prems(1) i1 s'(1)]
    have r': "0 \<le> remaining s'" "remaining s' \<le> alphabetIdxMax"
      using pr(1) less.prems(4,5) mx by (auto split: if_splits)
    have dec: "nat (n - out_i s') * 64 + nat (remaining s') < nat (n - out_i s) * 64 + nat (remaining s)"
    proof (cases "remaining s = 0")
      case True
      with fresh [of "gen_pos s"] have "out_i s' = out_i s + 1" by (intro pr(2)) simp
      then have "nat (n - out_i s) = Suc (nat (n - out_i s'))" using \<open>out_i s < n\<close> by simp
      moreover have "nat (remaining s') < 64" using r' mx by simp
      ultimately show ?thesis by simp
    next
      case False
      with pr(1) less.prems(4) have rr: "nat (remaining s) = Suc (nat (remaining s'))" by simp
      have "nat (n - out_i s') \<le> nat (n - out_i s)" using s'(3) by simp
      then show ?thesis using rr by simp
    qed
    have "\<exists>r. String_loop src a alphabetIdxBits alphabetIdxMask alphabetIdxMax n s' = Some (Inr r)"
    proof (rule less.hyps [OF dec])
      show "0 \<le> out_i s'" using less.prems(1) s'(3) by simp
      show "out_i s' \<le> n" using True s'(4) by simp
      show "length (out_b s') = nat n" using s'(2) less.prems(3) by simp
    qed (rule r')+
    then show ?thesis using True s'(1) by (subst String_loop.simps) simp
  qed
qed

lemma String_returns:
  assumes big: "2 \<le> length (String_alphabet alphabet)"
    and small: "length (String_alphabet alphabet) \<le> 2 ^ 63"
    and n0: "0 \<le> n"
    and fresh: "\<And>p. src p AND (push_bit (nat (countBits (int (length (String_alphabet alphabet))))) 1 - 1)
                  < int (length (String_alphabet alphabet))"
  shows "\<exists>r. String src n alphabet = Some (Inr r)"
proof -
  define k where "k = countBits (int (length (String_alphabet alphabet)))"
  have k0: "0 < k" unfolding k_def by (rule countBits_pos [OF big])
  have k63: "k \<le> 63" unfolding k_def using big small by (intro countBits_le_63) simp_all
  have "k div k \<le> 63 div k" using k63 k0 by (rule zdiv_mono1)
  then have mx1: "1 \<le> 63 div k" using k0 by simp
  have "(63::int) div k \<le> 63 div 1" using k0 by (intro zdiv_mono2) simp_all
  then have mx2: "63 div k \<le> 63" by simp
  have "\<exists>r. String_loop src (String_alphabet alphabet) k (push_bit (nat k) 1 - 1) (63 div k) n
      \<lparr>gen_pos = 1, randomInt63 = src 0, remaining = 63 div k, out_i = 0,
       out_b = replicate (nat n) (CHR 0x00)\<rparr> = Some (Inr r)"
    using n0 mx1 by (intro String_loop_returns [OF mask_nonneg mx1 mx2 fresh [folded k_def]]) simp_all
  then show ?thesis
    using k0 n0 unfolding String_def Let_def k_def [symmetric] by simp
qed

text \<open>
  When the size of the alphabet is a power of two no group is rejected, and \<open>String\<close>
  returns on every generator.
\<close>

lemma countBits_power_of_two: "countBits (int (2 ^ j)) = int j"
proof -
  have "(LEAST k. (2::nat) ^ j \<le> 2 ^ k) = j"
    by (rule Least_equality) simp_all
  then show ?thesis using countBits_least [of "2 ^ j"] by simp
qed

lemma String_returns_power_of_two:
  assumes len: "length (String_alphabet alphabet) = 2 ^ j" and j: "1 \<le> j" "j \<le> 63"
    and n0: "0 \<le> n"
  shows "\<exists>r. String src n alphabet = Some (Inr r)"
proof (rule String_returns [OF _ _ n0])
  have "(2::nat) ^ 1 \<le> 2 ^ j" using j(1) by (intro power_increasing) simp_all
  then show "2 \<le> length (String_alphabet alphabet)" by (simp add: len)
  have "(2::nat) ^ j \<le> 2 ^ 63" using j(2) by (intro power_increasing) simp_all
  then show "length (String_alphabet alphabet) \<le> 2 ^ 63" by (simp only: len)
  fix p
  have k: "countBits (int (length (String_alphabet alphabet))) = int j"
    by (simp only: len countBits_power_of_two)
  have "src p AND (push_bit j 1 - 1) \<le> (push_bit j 1 - 1 :: int)"
    by (rule AND_upper2) (rule mask_nonneg)
  also have "\<dots> < 2 ^ j" by (simp add: push_bit_eq_mult)
  finally have f: "src p AND (push_bit j 1 - 1) < 2 ^ j" .
  show "src p AND (push_bit (nat (countBits (int (length (String_alphabet alphabet))))) 1 - 1)
      < int (length (String_alphabet alphabet))"
    unfolding k nat_int unfolding len using f by simp
qed

text \<open>
  Without such an assumption on the generator the loop need not end: termination is a
  matter of probability, not of the code. On the generator that returns \<open>2\<^sup>6\<^sup>3 - 1\<close> for
  ever, every group is \<open>3\<close>, which the alphabet \<open>''abc''\<close> rejects.
\<close>

lemma ones_draws_mask: "ones_draws p = mask 63"
  by (simp add: ones_draws_def mask_eq_exp_minus_1)

lemma three_mask: "(3 :: int) = mask 2"
  by (simp add: mask_eq_exp_minus_1)

lemma String_body_all_rejected:
  assumes "all_rejected s"
  shows "\<exists>s'. String_body ones_draws ''abc'' 2 3 31 s = Inr s' \<and> all_rejected s'"
proof -
  define r where "r = (if remaining s = 0 then 31 else remaining s)"
  define s1 where "s1 = (if remaining s = 0
      then s\<lparr>gen_pos := gen_pos s + 1, randomInt63 := ones_draws (gen_pos s), remaining := 31\<rparr>
      else s)"
  from assms have r: "1 \<le> r" "r \<le> 31" by (auto simp: r_def all_rejected_def)
  have s1: "remaining s1 = r" "out_i s1 = 0" "length (out_b s1) = 1"
    "randomInt63 s1 = mask (1 + 2 * nat r)"
    using assms by (auto simp: s1_def r_def all_rejected_def ones_draws_mask)
  have idx: "randomInt63 s1 AND 3 = 3"
  proof -
    have "randomInt63 s1 AND mask 2 = take_bit 2 (mask (1 + 2 * nat r) :: int)"
      by (simp only: s1 take_bit_eq_mask)
    also have "\<dots> = mask (min 2 (1 + 2 * nat r))" by (rule take_bit_of_mask)
    also have "min 2 (1 + 2 * nat r) = 2" using r by simp
    finally show ?thesis by (simp only: three_mask)
  qed
  have dr: "drop_bit 2 (randomInt63 s1) = mask (1 + 2 * nat (r - 1))"
  proof -
    have "drop_bit 2 (randomInt63 s1) = mask (1 + 2 * nat r - 2)"
      by (simp only: s1 drop_bit_mask_eq)
    moreover have "1 + 2 * nat r - 2 = 1 + 2 * nat (r - 1)" using r by linarith
    ultimately show ?thesis by simp
  qed
  have "String_body ones_draws ''abc'' 2 3 31 s =
      Inr (s1\<lparr>randomInt63 := drop_bit 2 (randomInt63 s1), remaining := remaining s1 - 1\<rparr>)"
    unfolding String_body_def Let_def s1_def [symmetric] by (simp add: idx)
  moreover have "all_rejected (s1\<lparr>randomInt63 := drop_bit 2 (randomInt63 s1),
      remaining := remaining s1 - 1\<rparr>)"
    using r by (simp add: all_rejected_def s1(1,2,3) dr)
  ultimately show ?thesis by blast
qed

lemma String_loop_all_rejected:
  assumes "String_loop src a kb kmask mx n s = Some res"
    and "all_rejected s" and "src = ones_draws" and "a = ''abc''" and "kb = 2" and "kmask = 3"
    and "mx = 31" and "n = 1"
  shows False
  using assms
proof (induct rule: String_loop_induct)
  case (step loop src a kb kmask mx n s res)
  from String_body_all_rejected [OF step.prems(1)] obtain s' where
    s': "String_body ones_draws ''abc'' 2 3 31 s = Inr s'" "all_rejected s'" by blast
  have "out_i s < n" using step.prems(1,7) by (simp add: all_rejected_def)
  with step.hyps(2) s'(1) step.prems(2-6)
  have "loop src a kb kmask mx n s' = Some res" by simp
  from step.hyps(1) [OF this s'(2) step.prems(2-7)] show False .
qed

lemma countBits_3: "countBits 3 = 2"
  by (simp add: countBits_def countBits_loop.simps)

lemma String_may_not_return: "String ones_draws 1 [''abc''] = None"
proof (cases "String ones_draws 1 [''abc'']")
  case None
  then show ?thesis .
next
  case (Some res)
  then have "String_loop ones_draws ''abc'' 2 3 31 1
      \<lparr>gen_pos = 1, randomInt63 = ones_draws 0, remaining = 31, out_i = 0,
       out_b = replicate (nat 1) (CHR 0x00)\<rparr> = Some res"
    by (simp add: String_def String_alphabet_def countBits_3)
  moreover have "all_rejected \<lparr>gen_pos = 1, randomInt63 = ones_draws 0, remaining = 31,
      out_i = 0, out_b = replicate (nat 1) (CHR 0x00)\<rparr>"
    by (simp add: all_rejected_def ones_draws_mask)
  ultimately show ?thesis
    using String_loop_all_rejected by blast
qed

section \<open>String and the reference algorithm\<close>

text \<open>
  For an alphabet of at least two symbols, \<open>String\<close> computes what the specification's
  algorithm computes, on every generator: the same string when one returns, and neither
  returns when the other does not.
\<close>

lemma smallest_bits_Least: "Min {k \<in> {0..m}. m \<le> 2 ^ k} = (LEAST k. m \<le> 2 ^ k)"
proof -
  have mm: "m \<le> 2 ^ m" by (simp add: less_imp_le)
  have P: "m \<le> 2 ^ (LEAST k. m \<le> 2 ^ k)" using mm by (rule LeastI)
  have le: "(LEAST k. m \<le> 2 ^ k) \<le> m" using mm by (rule Least_le)
  show ?thesis
  proof (rule Min_eqI)
    show "finite {k \<in> {0..m}. m \<le> 2 ^ k}" by simp
    show "(LEAST k. m \<le> 2 ^ k) \<in> {k \<in> {0..m}. m \<le> 2 ^ k}" using P le by simp
    fix y assume "y \<in> {k \<in> {0..m}. m \<le> 2 ^ k}"
    then have "m \<le> 2 ^ y" by simp
    then show "(LEAST k. m \<le> 2 ^ k) \<le> y" by (rule Least_le)
  qed
qed

lemma spec_bits_1: "spec_bits (Suc 0) = 1"
proof -
  have "(LEAST k. Suc 0 \<le> 2 ^ k) = 0" by (rule Least_equality) simp_all
  then show ?thesis unfolding spec_bits_def smallest_bits_Least by simp
qed

lemma spec_bits_countBits:
  assumes "2 \<le> m"
  shows "int (spec_bits m) = countBits (int m)"
proof -
  have "0 < countBits (int m)" by (rule countBits_pos [OF assms])
  moreover have "countBits (int m) = int (LEAST k. m \<le> 2 ^ k)"
    using assms by (intro countBits_least) simp
  ultimately show ?thesis unfolding spec_bits_def smallest_bits_Least by simp
qed

lemma sim_length:
  assumes "sim n s t"
  shows "int (length (sp_out t)) = out_i s"
proof -
  from assms have t: "take (nat (out_i s)) (out_b s) = sp_out t"
    and i0: "0 \<le> out_i s" and i1: "out_i s \<le> n" and l: "length (out_b s) = nat n"
    by (simp_all add: sim_def)
  have "length (sp_out t) = length (take (nat (out_i s)) (out_b s))" by (simp only: t)
  also have "\<dots> = nat (out_i s)" using i1 l by simp
  finally show ?thesis using i0 by simp
qed

lemma sim_step:
  assumes r: "sim n s t" and lt: "out_i s < n" and m: "0 \<le> kmask"
  shows "\<exists>s'. String_body src a (int k) kmask mx s = Inr s' \<and> sim n s' (spec_step src a k kmask mx t)"
proof -
  have idx0: "0 \<le> x AND kmask" for x using m by simp
  have i0: "0 \<le> out_i s" using r by (simp add: sim_def)
  have i1: "nat (out_i s) < length (out_b s)" using r lt by (simp add: sim_def)
  have tk: "take (nat (out_i s + 1)) ((out_b s)[nat (out_i s) := c]) = take (nat (out_i s)) (out_b s) @ [c]" for c
  proof -
    have "nat (out_i s + 1) = Suc (nat (out_i s))" using i0 by linarith
    then show ?thesis using i1 by (simp add: take_Suc_conv_app_nth)
  qed
  show ?thesis
    using r lt i1 m unfolding String_body_def spec_step_def Let_def sim_def
    by (auto simp: tk)
qed

lemmas spec_loop_induct = spec_loop.raw_induct [rotated 1, consumes 1, case_names step]

lemma sim_done:
  assumes r: "sim n s t" and ge: "\<not> out_i s < n"
  shows "sp_out t = out_b s" and "\<not> length (sp_out t) < nat n"
proof -
  from r ge have e: "out_i s = n" by (simp add: sim_def)
  from r have "take (nat (out_i s)) (out_b s) = sp_out t" and "length (out_b s) = nat n"
    by (simp_all add: sim_def)
  then show "sp_out t = out_b s" using e by simp
  from sim_length [OF r] e show "\<not> length (sp_out t) < nat n" by simp
qed

lemma sim_more:
  assumes r: "sim n s t" and lt: "out_i s < n"
  shows "length (sp_out t) < nat n"
  using sim_length [OF r] lt by linarith

lemma String_loop_to_spec:
  assumes "String_loop src a kb kmask mx n s = Some res"
    and "sim n s t" and "0 \<le> kmask" and "kb = int k"
  shows "\<exists>r. res = Inr r \<and> spec_loop src a k kmask mx (nat n) t = Some r"
  using assms
proof (induct arbitrary: t rule: String_loop_induct)
  case (step loop src a kb kmask mx n s res)
  show ?case
  proof (cases "out_i s < n")
    case False
    from step.hyps(2) False have res: "res = Inr (out_b s)" by simp
    from sim_done [OF step.prems(1) False]
    have "spec_loop src a k kmask mx (nat n) t = Some (out_b s)"
      by (subst spec_loop.simps) simp
    with res show ?thesis by simp
  next
    case True
    from sim_step [OF step.prems(1) True step.prems(2), of src a k mx]
    obtain s' where s': "String_body src a (int k) kmask mx s = Inr s'"
      "sim n s' (spec_step src a k kmask mx t)" by blast
    from step.hyps(2) True s'(1) step.prems(3)
    have "loop src a kb kmask mx n s' = Some res" by simp
    from step.hyps(1) [OF this s'(2) step.prems(2,3)]
    obtain r where r: "res = Inr r"
      "spec_loop src a k kmask mx (nat n) (spec_step src a k kmask mx t) = Some r" by blast
    have "spec_loop src a k kmask mx (nat n) t = Some r"
      using sim_more [OF step.prems(1) True] r(2) by (subst spec_loop.simps) simp
    with r(1) show ?thesis by simp
  qed
qed

lemma spec_loop_to_String:
  assumes "spec_loop src a k kmask mx len t = Some r"
    and "sim n s t" and "0 \<le> kmask" and "len = nat n"
  shows "String_loop src a (int k) kmask mx n s = Some (Inr r)"
  using assms
proof (induct arbitrary: s rule: spec_loop_induct)
  case (step loop src a k kmask mx len t r)
  show ?case
  proof (cases "out_i s < n")
    case False
    from sim_done [OF step.prems(1) False] step.hyps(2) step.prems(3)
    have "r = out_b s" by simp
    then show ?thesis using False by (subst String_loop.simps) simp
  next
    case True
    from sim_step [OF step.prems(1) True step.prems(2), of src a k mx]
    obtain s' where s': "String_body src a (int k) kmask mx s = Inr s'"
      "sim n s' (spec_step src a k kmask mx t)" by blast
    from step.hyps(2) sim_more [OF step.prems(1) True] step.prems(3)
    have "loop src a k kmask mx len (spec_step src a k kmask mx t) = Some r" by simp
    from step.hyps(1) [OF this s'(2) step.prems(2,3)]
    have "String_loop src a (int k) kmask mx n s' = Some (Inr r)" .
    then show ?thesis using True s'(1) by (subst String_loop.simps) simp
  qed
qed

lemma String_loop_eq_spec_loop:
  assumes "sim n s t" and "0 \<le> kmask"
  shows "String_loop src a (int k) kmask mx n s
       = map_option Inr (spec_loop src a k kmask mx (nat n) t)"
proof (cases "String_loop src a (int k) kmask mx n s")
  case (Some res)
  from String_loop_to_spec [OF Some assms refl] show ?thesis using Some by auto
next
  case None
  show ?thesis
  proof (cases "spec_loop src a k kmask mx (nat n) t")
    case (Some r)
    from spec_loop_to_String [OF Some assms refl] None show ?thesis by simp
  next
    case n: None
    with None show ?thesis by simp
  qed
qed

lemma String_refines_spec:
  assumes big: "2 \<le> length (String_alphabet alphabet)" and n0: "0 \<le> n"
  shows "String src n alphabet
       = map_option Inr (RandomString_spec src (nat n)
           (case alphabet of [] \<Rightarrow> None | x # _ \<Rightarrow> Some x))"
proof -
  define a where "a = String_alphabet alphabet"
  define k where "k = spec_bits (length a)"
  have a: "(case (case alphabet of [] \<Rightarrow> None | x # _ \<Rightarrow> Some x) of
              None \<Rightarrow> AlphanumAlphabet
            | Some x \<Rightarrow> if x = [] then AlphanumAlphabet else x) = a"
    by (simp add: a_def String_alphabet_def split: list.splits)
  have kb: "countBits (int (length a)) = int k"
    using big by (simp add: k_def a_def spec_bits_countBits)
  have k0: "int k \<noteq> 0" using countBits_pos [OF big] kb by (simp add: a_def)
  have s0: "sim n \<lparr>gen_pos = 1, randomInt63 = src 0, remaining = 63 div int k, out_i = 0,
                  out_b = replicate (nat n) (CHR 0x00)\<rparr>
               \<lparr>sp_used = 1, sp_draw = src 0, sp_slots = 63 div int k, sp_out = []\<rparr>"
    using n0 by (simp add: sim_def)
  have "String src n alphabet =
      String_loop src a (int k) (push_bit k 1 - 1) (63 div int k) n
        \<lparr>gen_pos = 1, randomInt63 = src 0, remaining = 63 div int k, out_i = 0,
         out_b = replicate (nat n) (CHR 0x00)\<rparr>"
    using k0 n0 unfolding String_def Let_def a_def [symmetric] kb by simp
  also have "\<dots> = map_option Inr (spec_loop src a k (push_bit k 1 - 1) (63 div int k) (nat n)
        \<lparr>sp_used = 1, sp_draw = src 0, sp_slots = 63 div int k, sp_out = []\<rparr>)"
    by (rule String_loop_eq_spec_loop [OF s0 mask_nonneg])
  also have "\<dots> = map_option Inr (RandomString_spec src (nat n)
           (case alphabet of [] \<Rightarrow> None | x # _ \<Rightarrow> Some x))"
    unfolding RandomString_spec_def Let_def a k_def [symmetric] by simp
  finally show ?thesis .
qed

section \<open>String: an alphabet of one symbol\<close>

lemma countBits_1: "countBits 1 = 0"
  by (simp add: countBits_def countBits_loop_0)

text \<open>
  Claim C1. The claim is that for every length \<open>n \<ge> 0\<close> and every supplied alphabet
  \<open>String\<close> returns a string of \<open>n\<close> symbols of the alphabet, the empty string for
  \<open>n = 0\<close>. With the alphabet \<open>''a''\<close> and \<open>n = 0\<close> the code returns no string: it panics
  on the division \<^verbatim>\<open>63 / alphabetIdxBits\<close>.
\<close>

theorem String_zero_length_single_symbol:
  "String zero_draws 0 [''a''] = Some (Inl IntegerDivideByZero)
   \<and> String zero_draws 0 [''a''] \<noteq> Some (Inr [])"
  by (simp add: String_def String_alphabet_def countBits_1)

text \<open>
  Claim C2. The claim is that \<open>String\<close> cannot fail for a non-empty alphabet, an alphabet
  of size 1 included. For every alphabet of exactly one symbol, every length and every
  generator, the code panics: \<open>countBits 1 = 0\<close>, and the division by it is a division by
  zero.
\<close>

theorem String_single_symbol_panics:
  "String src n [[c]] = Some (Inl IntegerDivideByZero)"
  by (simp add: String_def String_alphabet_def countBits_1)

text \<open>
  Claim C4. The claim is that \<open>String\<close> is the reference algorithm of the specification,
  whose bit count \<open>k\<close> is at least 1 for an alphabet of size 1. For the alphabet \<open>''a''\<close>
  the reference algorithm has \<open>k = 1\<close> and returns \<open>''aaa''\<close> for the length 3; the code's
  bit count is 0, its mask is 0, and it panics on the division \<^verbatim>\<open>63 / alphabetIdxBits\<close>
  before any symbol is extracted.
\<close>

theorem String_bit_count_single_symbol:
  "countBits (int (length ''a'')) = 0
   \<and> spec_bits (length ''a'') = 1
   \<and> String counting_draws 3 [''a''] = Some (Inl IntegerDivideByZero)
   \<and> RandomString_spec counting_draws 3 (Some ''a'') = Some ''aaa''"
  by (simp add: String_def String_alphabet_def countBits_1 RandomString_spec_def Let_def
      spec_bits_1 spec_loop.simps spec_step_def counting_draws_def)

end
